theory Spec2Isabelle
  imports Complex_Main "HOL-Library.Char_ord" "HOL-Library.List_Lexorder"
begin

section \<open>Python values used by the client\<close>

text \<open>
  A Python \<open>str\<close> is modelled as a \<open>string\<close> (a list of 8-bit characters, read as the
  code points below 256); \<open>sorted\<close> on strings is the lexicographic order of the code
  points, which is the order of \<open>HOL-Library.List_Lexorder\<close> over \<open>HOL-Library.Char_ord\<close>.

  A \<open>Dict[str, str]\<close> is an association list in insertion order whose keys are
  distinct. The source tests values against \<open>None\<close>, so a value is a \<open>string option\<close>.
\<close>

type_synonym tokens = "(string \<times> string option) list"

datatype exc =
    RuntimeError string
  | ValueError
  | TypeError
  | BadSignatureError
  | TransportError
  | OtherError

text \<open>\<open>d[k] = v\<close>: an existing key keeps its position, a new key is appended.\<close>

fun dict_set :: "('k \<times> 'v) list \<Rightarrow> 'k \<Rightarrow> 'v \<Rightarrow> ('k \<times> 'v) list" where
  "dict_set [] k v = [(k, v)]"
| "dict_set ((k', v') # d) k v = (if k' = k then (k, v) # d else (k', v') # dict_set d k v)"

text \<open>\<open>d.keys()\<close>, \<open>k in d\<close>, \<open>d.get(k)\<close> and \<open>d.get(k, default)\<close>.\<close>

definition dict_keys :: "('k \<times> 'v) list \<Rightarrow> 'k list" where
  "dict_keys d = map fst d"

definition dict_has :: "('k \<times> 'v) list \<Rightarrow> 'k \<Rightarrow> bool" where
  "dict_has d k = (map_of d k \<noteq> None)"

definition dict_get :: "tokens \<Rightarrow> string \<Rightarrow> string option" where
  "dict_get d k = (case map_of d k of None \<Rightarrow> None | Some v \<Rightarrow> v)"

definition dict_get_default :: "tokens \<Rightarrow> string \<Rightarrow> string option \<Rightarrow> string option" where
  "dict_get_default d k dflt = (case map_of d k of None \<Rightarrow> dflt | Some v \<Rightarrow> v)"

text \<open>Truthiness of an optional string: \<open>None\<close> and \<open>""\<close> are false.\<close>

definition truthy :: "string option \<Rightarrow> bool" where
  "truthy v = (case v of None \<Rightarrow> False | Some s \<Rightarrow> s \<noteq> [])"

text \<open>\<open>str(v)\<close> as an f-string formats it.\<close>

definition py_str :: "string option \<Rightarrow> string" where
  "py_str v = (case v of None \<Rightarrow> ''None'' | Some s \<Rightarrow> s)"

text \<open>\<open>sep.join(items)\<close>.\<close>

fun join :: "string \<Rightarrow> string list \<Rightarrow> string" where
  "join sep [] = []"
| "join sep [x] = x"
| "join sep (x # y # ys) = x @ sep @ join sep (y # ys)"

text \<open>\<open>s.split(c)\<close> for a one-character separator: always at least one part.\<close>

fun split_chr :: "char \<Rightarrow> string \<Rightarrow> string list" where
  "split_chr c [] = [[]]"
| "split_chr c (x # xs) =
     (let r = split_chr c xs in if x = c then [] # r else (x # hd r) # tl r)"

text \<open>\<open>s.split(c, 1)\<close>: split at the first separator only.\<close>

definition split1 :: "char \<Rightarrow> string \<Rightarrow> string list" where
  "split1 c p =
     (if c \<in> set p then [takeWhile (\<lambda>x. x \<noteq> c) p, tl (dropWhile (\<lambda>x. x \<noteq> c) p)] else [p])"

text \<open>
  \<open>str.isspace\<close> on the code points below 256, and \<open>s.strip()\<close>.
\<close>

definition is_space :: "char \<Rightarrow> bool" where
  "is_space c = (of_char c \<in> set [9, 10, 11, 12, 13, 28, 29, 30, 31, 32, 133, 160 :: nat])"

definition strip :: "string \<Rightarrow> string" where
  "strip s = rev (dropWhile is_space (rev (dropWhile is_space s)))"

text \<open>\<open>k.startswith(prefixes)\<close> with a tuple of prefixes.\<close>

definition starts :: "string \<Rightarrow> string \<Rightarrow> bool" where
  "starts k p = (take (length p) k = p)"

definition startswith :: "string \<Rightarrow> string list \<Rightarrow> bool" where
  "startswith k ps = list_ex (starts k) ps"

text \<open>\<open>str(n)\<close> of a natural number and \<open>int(s)\<close> of a string of decimal digits.\<close>

definition digit_chr :: "nat \<Rightarrow> char" where
  "digit_chr n = ''0123456789'' ! n"

function str_nat :: "nat \<Rightarrow> string" where
  "str_nat n = (if n < 10 then [digit_chr n] else str_nat (n div 10) @ [digit_chr (n mod 10)])"
  by pat_completeness auto
termination
  by (relation "measure id") auto

declare str_nat.simps [simp del]

definition is_digit :: "char \<Rightarrow> bool" where
  "is_digit c = (c \<in> set ''0123456789'')"

definition digit_val :: "char \<Rightarrow> nat" where
  "digit_val c = of_char c - 48"

definition nat_of_digits :: "string \<Rightarrow> nat" where
  "nat_of_digits s = foldl (\<lambda>a c. 10 * a + digit_val c) 0 s"

text \<open>\<open>int(s)\<close> of a string: surrounding white space is stripped, one sign is allowed, and
  the digits may be grouped by single underscores. \<open>int(None)\<close> raises \<open>TypeError\<close>.\<close>

definition py_int :: "string \<Rightarrow> exc + int" where
  "py_int s =
     (let t = strip s;
          neg = (t \<noteq> [] \<and> hd t = CHR ''-'');
          body = (if t \<noteq> [] \<and> (hd t = CHR ''-'' \<or> hd t = CHR ''+'') then tl t else t);
          groups = split_chr CHR ''_'' body
      in if list_all (\<lambda>g. g \<noteq> [] \<and> list_all is_digit g) groups
         then Inr ((if neg then - 1 else 1) * int (nat_of_digits (concat groups)))
         else Inl ValueError)"

definition py_int_opt :: "string option \<Rightarrow> exc + int" where
  "py_int_opt v = (case v of None \<Rightarrow> Inl TypeError | Some s \<Rightarrow> py_int s)"

text \<open>\<open>str(n)\<close> of an integer, and \<open>int(x)\<close> of a float (truncation towards zero).\<close>

definition str_int :: "int \<Rightarrow> string" where
  "str_int n = (if n < 0 then ''-'' @ str_nat (nat (- n)) else str_nat (nat n))"

definition py_trunc :: "real \<Rightarrow> int" where
  "py_trunc x = (if 0 \<le> x then \<lfloor>x\<rfloor> else \<lceil>x\<rceil>)"

section \<open>toon.py: the canonical codec\<close>

definition SIG_PREFIX :: "string list" where
  "SIG_PREFIX = [''SIG'', ''FW_SIG'', ''SIG_SERV'']"

text \<open>
  \<open>to_canonical_string\<close>: the loop over \<open>sorted(tokens.keys())\<close>. The lookup
  \<open>tokens[k]\<close> is of a key of \<open>tokens\<close>; a value \<open>None\<close> is skipped.
\<close>

fun canonical_items :: "tokens \<Rightarrow> string list \<Rightarrow> string list" where
  "canonical_items tokens [] = []"
| "canonical_items tokens (k # ks) =
     (if startswith k SIG_PREFIX then canonical_items tokens ks
      else (case dict_get tokens k of
              None \<Rightarrow> canonical_items tokens ks
            | Some v \<Rightarrow> (k @ '':'' @ v) # canonical_items tokens ks))"

definition to_canonical_string :: "tokens \<Rightarrow> string" where
  "to_canonical_string tokens = join ''|'' (canonical_items tokens (sort (dict_keys tokens)))"

text \<open>\<open>build_payload\<close>: the entries in insertion order, \<open>None\<close> values left out.\<close>

fun payload_items :: "tokens \<Rightarrow> string list" where
  "payload_items [] = []"
| "payload_items ((k, None) # t) = payload_items t"
| "payload_items ((k, Some v) # t) = (k @ '':'' @ v) # payload_items t"

definition build_payload :: "tokens \<Rightarrow> string" where
  "build_payload tokens = join ''|'' (payload_items tokens)"

text \<open>
  \<open>parse_tokens\<close>. The unpacking \<open>k, v = p.split(":", 1)\<close> raises \<open>ValueError\<close>
  unless the split has exactly two parts.
\<close>

fun parse_parts :: "string list \<Rightarrow> tokens \<Rightarrow> exc + tokens" where
  "parse_parts [] out = Inr out"
| "parse_parts (p # ps) out =
     (if CHR '':'' \<notin> set p then parse_parts ps out
      else (case split1 CHR '':'' p of
              [k, v] \<Rightarrow> parse_parts ps (dict_set out k (Some v))
            | _ \<Rightarrow> Inl ValueError))"

definition parse_tokens :: "string \<Rightarrow> exc + tokens" where
  "parse_tokens payload =
     (if payload = [] then Inr []
      else parse_parts (split_chr CHR ''|'' (strip payload)) [])"

text \<open>
  The regular expression \<open>^(?P<prefix>[A-Z0-9]+)\[(?P<idx>\d+)\]\.(?P<key>[A-Z0-9_]+)$\<close>
  applied with \<open>match\<close>. Each group is followed by a character outside its class, so the
  greedy match is the only one; \<open>$\<close> also matches before one final newline.
\<close>

definition is_upper :: "char \<Rightarrow> bool" where
  "is_upper c = (c \<in> set ''ABCDEFGHIJKLMNOPQRSTUVWXYZ'')"

definition is_AZ09 :: "char \<Rightarrow> bool" where
  "is_AZ09 c = (is_upper c \<or> is_digit c)"

definition is_AZ09u :: "char \<Rightarrow> bool" where
  "is_AZ09u c = (is_upper c \<or> is_digit c \<or> c = CHR ''_'')"

definition array_key_match :: "string \<Rightarrow> (string \<times> string \<times> string) option" where
  "array_key_match s =
     (let prefix = takeWhile is_AZ09 s; r1 = dropWhile is_AZ09 s in
      if prefix = [] then None
      else (case r1 of
              c1 # r2 \<Rightarrow>
                if c1 \<noteq> CHR ''['' then None
                else
                  (let idx = takeWhile is_digit r2; r3 = dropWhile is_digit r2 in
                   if idx = [] then None
                   else (case r3 of
                           c2 # c3 # r4 \<Rightarrow>
                             if c2 \<noteq> CHR '']'' \<or> c3 \<noteq> CHR ''.'' then None
                             else
                               (let key = takeWhile is_AZ09u r4; r5 = dropWhile is_AZ09u r4 in
                                if key \<noteq> [] \<and> (r5 = [] \<or> r5 = [CHR 0x0A])
                                then Some (prefix, idx, key) else None)
                         | _ \<Rightarrow> None))
            | [] \<Rightarrow> None))"

text \<open>
  \<open>parse_array_tokens\<close>: \<open>buckets.setdefault(idx, {})\<close> followed by the store into the
  bucket, then the buckets by ascending index.
\<close>

fun parse_array_loop ::
  "tokens \<Rightarrow> string \<Rightarrow> (nat \<times> tokens) list \<Rightarrow> (nat \<times> tokens) list" where
  "parse_array_loop [] prefix buckets = buckets"
| "parse_array_loop ((k, v) # kvs) prefix buckets =
     (case array_key_match k of
        None \<Rightarrow> parse_array_loop kvs prefix buckets
      | Some (p, idx, key) \<Rightarrow>
          if p \<noteq> prefix then parse_array_loop kvs prefix buckets
          else
            (let i = nat_of_digits idx;
                 item = (case map_of buckets i of None \<Rightarrow> [] | Some it \<Rightarrow> it)
             in parse_array_loop kvs prefix (dict_set buckets i (dict_set item key v))))"

definition parse_array_tokens :: "tokens \<Rightarrow> string \<Rightarrow> tokens list" where
  "parse_array_tokens tokens prefix =
     (let buckets = parse_array_loop tokens prefix []
      in List.map_filter (map_of buckets) (sort (dict_keys buckets)))"

text \<open>\<open>build_array_tokens\<close>: the inner loop over one item, the outer loop, the count.\<close>

fun build_item :: "string \<Rightarrow> nat \<Rightarrow> tokens \<Rightarrow> tokens \<Rightarrow> tokens" where
  "build_item prefix i [] out = out"
| "build_item prefix i ((k, v) # kvs) out =
     build_item prefix i kvs (dict_set out (prefix @ ''['' @ str_nat i @ ''].'' @ k) v)"

fun build_items :: "string \<Rightarrow> nat \<Rightarrow> tokens list \<Rightarrow> tokens \<Rightarrow> tokens" where
  "build_items prefix i [] out = out"
| "build_items prefix i (item # items) out =
     build_items prefix (Suc i) items (build_item prefix i item out)"

definition build_array_tokens :: "tokens list \<Rightarrow> string \<Rightarrow> tokens" where
  "build_array_tokens items prefix =
     dict_set (build_items prefix 0 items []) (prefix @ ''_COUNT'')
       (Some (str_nat (length items)))"

section \<open>config.py, and what the client takes from outside\<close>

record config =
  DEVICE_ID :: string
  MANUFACTURER :: string
  MODEL :: string
  FIRMWARE_VERSION :: string
  DEFAULT_RTO_SECONDS :: int
  MAX_BACKOFF_SECONDS :: int
  SERVER_PUBLIC_KEY_BASE64 :: string
  OTA_STAGING_DIR :: string

text \<open>
  The libraries and the outside world are parameters. \<open>b64decode\<close>, \<open>VerifyKey\<close> and
  \<open>vk_verify\<close> are \<open>base64.b64decode\<close>, \<open>nacl.signing.VerifyKey\<close> and its \<open>verify\<close>, each
  returning or raising; \<open>encode\<close> is \<open>str.encode\<close>; \<open>sign\<close> and \<open>public_key_b64\<close> belong to
  the device key. Every other field answers a read of the outside world and is indexed by
  the number of reads made so far, so that the world may answer differently each time:
  the clock, the nonce generator, the telemetry, the HTTP exchanges, the download, the
  digest of a staged file and its existence.
\<close>

record env =
  b64decode :: "string \<Rightarrow> exc + string"
  VerifyKey :: "string \<Rightarrow> exc + string"
  vk_verify :: "string \<Rightarrow> string \<Rightarrow> string \<Rightarrow> exc + unit"
  encode :: "string \<Rightarrow> string"
  sign :: "string \<Rightarrow> string"
  public_key_b64 :: string
  ts_at :: "nat \<Rightarrow> string"
  nonce_at :: "nat \<Rightarrow> string"
  time_at :: "nat \<Rightarrow> real"
  telemetry_at :: "nat \<Rightarrow> string \<Rightarrow> string"
  http_post :: "nat \<Rightarrow> string \<Rightarrow> string \<Rightarrow> exc + int \<times> string"
  http_get :: "nat \<Rightarrow> string \<Rightarrow> string \<Rightarrow> exc + int \<times> string"
  fetch :: "nat \<Rightarrow> string \<Rightarrow> string \<Rightarrow> bool"
  sha256_hex :: "nat \<Rightarrow> string \<Rightarrow> string"
  path_exists :: "nat \<Rightarrow> string \<Rightarrow> bool"
  describe :: "exc \<Rightarrow> string"

text \<open>
  What the client does to the outside world, in order: audit records and nonce records
  written to the local database, requests handed to the transport, downloads, entries
  into the apply stage, sleeps.
  The two database writes are taken to succeed.
\<close>

datatype event =
    Audit string string string
  | AddNonce string
  | Post string string
  | Get string string
  | Download string string
  | Apply string
  | Sleep int

text \<open>
  The state: the two fields of \<open>DeviceClient\<close> that change, the events so far and the
  number of reads of the outside world so far.
\<close>

record state =
  rto_sec :: int
  current_fw :: "string option"
  events :: "event list"
  now :: nat

definition emit :: "event \<Rightarrow> state \<Rightarrow> state" where
  "emit e s = s\<lparr>events := events s @ [e]\<rparr>"

definition tick :: "state \<Rightarrow> state" where
  "tick s = s\<lparr>now := Suc (now s)\<rparr>"

definition init_client :: "config \<Rightarrow> state" where
  "init_client cfg =
     \<lparr>rto_sec = DEFAULT_RTO_SECONDS cfg, current_fw = Some (FIRMWARE_VERSION cfg),
      events = [], now = 0\<rparr>"

section \<open>storage.py and http.py\<close>

definition audit :: "string \<Rightarrow> string \<Rightarrow> string \<Rightarrow> state \<Rightarrow> state" where
  "audit kind direction raw_toon s = emit (Audit kind direction raw_toon) s"

definition add_nonce :: "string \<Rightarrow> state \<Rightarrow> state" where
  "add_nonce n s = emit (AddNonce n) s"

definition post ::
  "env \<Rightarrow> string \<Rightarrow> string \<Rightarrow> state \<Rightarrow> (exc + int \<times> string \<times> tokens) \<times> state" where
  "post env path toon_payload s =
     (let s1 = tick (emit (Post path toon_payload) s) in
      case http_post env (now s) path toon_payload of
        Inl e \<Rightarrow> (Inl e, s1)
      | Inr (status, text) \<Rightarrow>
          (case parse_tokens text of
             Inl e \<Rightarrow> (Inl e, s1)
           | Inr resp \<Rightarrow> (Inr (status, text, resp), s1)))"

definition get ::
  "env \<Rightarrow> string \<Rightarrow> string \<Rightarrow> state \<Rightarrow> (exc + int \<times> string \<times> tokens) \<times> state" where
  "get env path toon_query s =
     (let s1 = tick (emit (Get path toon_query) s) in
      case http_get env (now s) path toon_query of
        Inl e \<Rightarrow> (Inl e, s1)
      | Inr (status, text) \<Rightarrow>
          (case parse_tokens text of
             Inl e \<Rightarrow> (Inl e, s1)
           | Inr resp \<Rightarrow> (Inr (status, text, resp), s1)))"

section \<open>keys.py\<close>

text \<open>
  \<open>DeviceKeys.verify_with_public_b64\<close>: the \<open>try\<close> body builds the key, decodes the
  signature and verifies; \<open>except (BadSignatureError, ValueError)\<close> returns \<open>False\<close>, any
  other exception leaves the function.
\<close>

definition verify_with_public_b64 :: "env \<Rightarrow> string \<Rightarrow> string \<Rightarrow> string \<Rightarrow> exc + bool" where
  "verify_with_public_b64 env public_key_b64' data signature_b64 =
     (let body =
        (case b64decode env public_key_b64' of
           Inl e \<Rightarrow> Inl e
         | Inr key_bytes \<Rightarrow>
             (case VerifyKey env key_bytes of
                Inl e \<Rightarrow> Inl e
              | Inr vk \<Rightarrow>
                  (case b64decode env signature_b64 of
                     Inl e \<Rightarrow> Inl e
                   | Inr sig_bytes \<Rightarrow> vk_verify env vk data sig_bytes)))
      in case body of
           Inr u \<Rightarrow> Inr True
         | Inl e \<Rightarrow> if e = BadSignatureError \<or> e = ValueError then Inr False else Inl e)"

section \<open>client.py\<close>

text \<open>\<open>_ts\<close> and \<open>_nonce\<close>: one read of the outside world each.\<close>

definition client_ts :: "env \<Rightarrow> state \<Rightarrow> string \<times> state" where
  "client_ts env s = (ts_at env (now s), tick s)"

definition client_nonce :: "env \<Rightarrow> state \<Rightarrow> string \<times> state" where
  "client_nonce env s = (nonce_at env (now s), tick s)"

text \<open>\<open>_verify_server_signature\<close>.\<close>

definition verify_server_signature :: "env \<Rightarrow> config \<Rightarrow> tokens \<Rightarrow> string \<Rightarrow> exc + bool" where
  "verify_server_signature env cfg tokens_subset signature_b64 =
     (if SERVER_PUBLIC_KEY_BASE64 cfg = [] then Inr False
      else verify_with_public_b64 env (SERVER_PUBLIC_KEY_BASE64 cfg)
             (encode env (to_canonical_string tokens_subset)) signature_b64)"

text \<open>\<open>register\<close>.\<close>

definition register :: "env \<Rightarrow> config \<Rightarrow> state \<Rightarrow> (exc + unit) \<times> state" where
  "register env cfg s0 =
     (let (ts, s1) = client_ts env s0;
          (nonce, s2) = client_nonce env s1;
          tokens = [(''D1'', Some (DEVICE_ID cfg)), (''D2'', Some ''RPI_TERMINAL''),
                    (''D3'', Some (public_key_b64 env)), (''D4'', Some (MANUFACTURER cfg)),
                    (''D5'', Some (MODEL cfg)), (''TS'', Some ts), (''NONCE'', Some nonce)];
          sig = sign env (encode env (to_canonical_string tokens));
          tokens = dict_set tokens ''SIG1'' (Some sig);
          payload = build_payload tokens;
          s3 = audit ''register'' ''out'' payload s2
      in case post env ''/api/devices/register'' payload s3 of
           (Inl e, s4) \<Rightarrow> (Inl e, s4)
         | (Inr (status, text, resp), s4) \<Rightarrow>
             (let s5 = audit ''register'' ''in'' text s4 in
              if dict_get resp ''S1'' \<noteq> Some ''registered'' \<and> dict_get resp ''S1'' \<noteq> Some ''ok''
              then (Inl (RuntimeError (''Registration failed: '' @ text)), s5)
              else if dict_has resp ''RTO''
              then (case py_int_opt (dict_get resp ''RTO'') of
                      Inl e \<Rightarrow> (Inl e, s5)
                    | Inr d \<Rightarrow> (Inr (), s5\<lparr>rto_sec := max 10 d\<rparr>))
              else (Inr (), s5)))"

text \<open>\<open>heartbeat_once\<close>. The six \<open>HB\<close> values come from the telemetry in one read.\<close>

definition heartbeat_once :: "env \<Rightarrow> config \<Rightarrow> state \<Rightarrow> (exc + tokens) \<times> state" where
  "heartbeat_once env cfg s0 =
     (let hb = telemetry_at env (now s0);
          s1 = tick s0;
          (ts, s2) = client_ts env s1;
          (nonce, s3) = client_nonce env s2;
          tokens = [(''D1'', Some (DEVICE_ID cfg)), (''HB1'', Some (hb ''HB1'')),
                    (''HB2'', Some (hb ''HB2'')), (''HB3'', Some (hb ''HB3'')),
                    (''HB4'', Some (hb ''HB4'')), (''HB5'', Some (hb ''HB5'')),
                    (''HB6'', Some (hb ''HB6'')), (''FW2'', current_fw s0),
                    (''TS'', Some ts), (''NONCE'', Some nonce)];
          sig = sign env (encode env (to_canonical_string tokens));
          tokens = dict_set tokens ''SIG1'' (Some sig);
          payload = build_payload tokens;
          s4 = add_nonce nonce s3;
          s5 = audit ''heartbeat'' ''out'' payload s4
      in case post env ''/api/devices/heartbeat'' payload s5 of
           (Inl e, s6) \<Rightarrow> (Inl e, s6)
         | (Inr (status, text, resp), s6) \<Rightarrow>
             (let s7 = audit ''heartbeat'' ''in'' text s6 in
              if truthy (dict_get resp ''RTO'')
              then (case py_int_opt (dict_get resp ''RTO'') of
                      Inl e \<Rightarrow> (Inl e, s7)
                    | Inr d \<Rightarrow>
                        (Inr resp, s7\<lparr>rto_sec := min (MAX_BACKOFF_SECONDS cfg) (max 10 d)\<rparr>))
              else (Inr resp, s7)))"

text \<open>\<open>commands_poll\<close>: the loop that keeps the verified commands, then the function.\<close>

definition signable :: "tokens \<Rightarrow> tokens" where
  "signable c =
     filter (\<lambda>(k, v). k \<in> set [''CMD1'', ''CMD2'', ''CMD3'', ''CMD4'', ''CMD5'', ''TS'']) c"

fun verify_cmds :: "env \<Rightarrow> config \<Rightarrow> tokens list \<Rightarrow> tokens list \<Rightarrow> exc + tokens list" where
  "verify_cmds env cfg [] verified = Inr verified"
| "verify_cmds env cfg (c # cs) verified =
     (case dict_get c ''SIG_SERV'' of
        None \<Rightarrow> verify_cmds env cfg cs verified
      | Some sig_serv \<Rightarrow>
          if sig_serv = [] \<or> SERVER_PUBLIC_KEY_BASE64 cfg = [] then verify_cmds env cfg cs verified
          else (case verify_server_signature env cfg (signable c) sig_serv of
                  Inl e \<Rightarrow> Inl e
                | Inr ok \<Rightarrow> verify_cmds env cfg cs (if ok then verified @ [c] else verified)))"

definition commands_poll :: "env \<Rightarrow> config \<Rightarrow> state \<Rightarrow> (exc + tokens list) \<times> state" where
  "commands_poll env cfg s0 =
     (let (ts, s1) = client_ts env s0;
          (nonce, s2) = client_nonce env s1;
          tokens = [(''D1'', Some (DEVICE_ID cfg)), (''TS'', Some ts), (''NONCE'', Some nonce)];
          sig = sign env (encode env (to_canonical_string tokens));
          tokens = dict_set tokens ''SIG1'' (Some sig);
          query = build_payload tokens;
          s3 = audit ''commands_poll'' ''out'' query s2
      in case get env ''/api/devices/commands'' query s3 of
           (Inl e, s4) \<Rightarrow> (Inl e, s4)
         | (Inr (status, text, resp), s4) \<Rightarrow>
             (let s5 = audit ''commands_poll'' ''in'' text s4;
                  cmds = parse_array_tokens resp ''CMD''
              in (verify_cmds env cfg cmds [], s5)))"

text \<open>\<open>command_ack\<close>: its message, then the function.\<close>

definition command_ack_tokens ::
  "config \<Rightarrow> string option \<Rightarrow> bool \<Rightarrow> string \<Rightarrow> int \<Rightarrow> string \<Rightarrow> string \<Rightarrow> tokens" where
  "command_ack_tokens cfg cmd_id ok message duration_ms ts nonce =
     [(''D1'', Some (DEVICE_ID cfg)), (''CMD1'', cmd_id),
      (''ACK1'', Some (if ok then ''OK'' else ''ERROR'')), (''ACK2'', Some message),
      (''ACK3'', Some (str_int duration_ms)), (''TS'', Some ts), (''NONCE'', Some nonce)]"

definition command_ack ::
  "env \<Rightarrow> config \<Rightarrow> string option \<Rightarrow> bool \<Rightarrow> string \<Rightarrow> int \<Rightarrow> state \<Rightarrow> (exc + tokens) \<times> state" where
  "command_ack env cfg cmd_id ok message duration_ms s0 =
     (let (ts, s1) = client_ts env s0;
          (nonce, s2) = client_nonce env s1;
          tokens = command_ack_tokens cfg cmd_id ok message duration_ms ts nonce;
          sig = sign env (encode env (to_canonical_string tokens));
          tokens = dict_set tokens ''SIG1'' (Some sig);
          payload = build_payload tokens;
          s3 = audit ''command_ack'' ''out'' payload s2
      in case post env ''/api/devices/command-ack'' payload s3 of
           (Inl e, s4) \<Rightarrow> (Inl e, s4)
         | (Inr (status, text, resp), s4) \<Rightarrow> (Inr resp, audit ''command_ack'' ''in'' text s4))"

text \<open>\<open>firmware_check\<close>.\<close>

definition firmware_check :: "env \<Rightarrow> config \<Rightarrow> state \<Rightarrow> (exc + tokens) \<times> state" where
  "firmware_check env cfg s0 =
     (let (ts, s1) = client_ts env s0;
          (nonce, s2) = client_nonce env s1;
          tokens = [(''D1'', Some (DEVICE_ID cfg)), (''FW2'', current_fw s0),
                    (''TS'', Some ts), (''NONCE'', Some nonce)];
          sig = sign env (encode env (to_canonical_string tokens));
          tokens = dict_set tokens ''SIG1'' (Some sig);
          payload = build_payload tokens;
          s3 = audit ''fw_check'' ''out'' payload s2
      in case post env ''/api/devices/firmware/check'' payload s3 of
           (Inl e, s4) \<Rightarrow> (Inl e, s4)
         | (Inr (status, text, resp), s4) \<Rightarrow> (Inr resp, audit ''fw_check'' ''in'' text s4))"

text \<open>
  \<open>_download_to\<close> (a missing or empty URL fails; every transport failure is caught and
  gives \<open>False\<close>) and \<open>_apply_staged\<close> (whether the staged file exists).
\<close>

definition download_to :: "env \<Rightarrow> string option \<Rightarrow> string \<Rightarrow> state \<Rightarrow> bool \<times> state" where
  "download_to env url path s =
     (case url of
        None \<Rightarrow> (False, s)
      | Some u \<Rightarrow>
          if u = [] then (False, s)
          else (fetch env (now s) u path, tick (emit (Download u path) s)))"

definition apply_staged :: "env \<Rightarrow> string \<Rightarrow> state \<Rightarrow> bool \<times> state" where
  "apply_staged env path s = (path_exists env (now s) path, tick (emit (Apply path) s))"

text \<open>
  \<open>firmware_apply_flow\<close>. \<open>manifest_subset\<close> is the dictionary comprehension over
  \<open>FW1\<close>, \<open>FW2\<close>, \<open>FW4\<close>, \<open>FW5\<close>; the digest of the staged file is one read of the outside
  world. \<open>firmware_ack\<close> is the part of the function from the comment \<open># Ack\<close> to its end:
  the signed acknowledgment, and the update of \<open>current_fw\<close> when the apply stage
  succeeded.
\<close>

definition manifest_subset :: "tokens \<Rightarrow> tokens" where
  "manifest_subset resp =
     List.map_filter (\<lambda>k. map_option (\<lambda>v. (k, v)) (map_of resp k))
       [''FW1'', ''FW2'', ''FW4'', ''FW5'']"

definition firmware_ack ::
  "env \<Rightarrow> config \<Rightarrow> tokens \<Rightarrow> string option \<Rightarrow> bool \<Rightarrow> state \<Rightarrow> (exc + bool) \<times> state" where
  "firmware_ack env cfg resp fw_id applied s3 =
     (let (ts, s4) = client_ts env s3;
          (nonce, s5) = client_nonce env s4;
          ack_tokens =
            [(''D1'', Some (DEVICE_ID cfg)), (''FW1'', fw_id),
             (''FW2'', dict_get_default resp ''FW2'' (Some [])),
             (''ACK1'', Some (if applied then ''OK'' else ''ERROR'')),
             (''ACK2'', Some (if applied then ''Firmware applied successfully''
                             else ''Apply failed, rolled back'')),
             (''TS'', Some ts), (''NONCE'', Some nonce)];
          sig = sign env (encode env (to_canonical_string ack_tokens));
          ack_tokens = dict_set ack_tokens ''SIG1'' (Some sig);
          ack_payload = build_payload ack_tokens;
          s6 = audit ''fw_ack'' ''out'' ack_payload s5
      in case post env ''/api/devices/firmware/ack'' ack_payload s6 of
           (Inl e, s7) \<Rightarrow> (Inl e, s7)
         | (Inr (status, ack_text, ack_resp), s7) \<Rightarrow>
             (let s8 = audit ''fw_ack'' ''in'' ack_text s7 in
              if applied
              then (Inr True, s8\<lparr>current_fw := dict_get_default resp ''FW2'' (current_fw s8)\<rparr>)
              else (Inr False, s8)))"

definition firmware_apply_flow ::
  "env \<Rightarrow> config \<Rightarrow> tokens \<Rightarrow> bool \<Rightarrow> state \<Rightarrow> (exc + bool) \<times> state" where
  "firmware_apply_flow env cfg resp force_fail s0 =
     (let fw_sig = dict_get resp ''FW_SIG'';
          vt = manifest_subset resp;
          sig_ok = (case fw_sig of
                      None \<Rightarrow> Inr False
                    | Some sg \<Rightarrow> if sg = [] then Inr False
                                else verify_server_signature env cfg vt sg)
      in case sig_ok of
           Inl e \<Rightarrow> (Inl e, s0)
         | Inr valid \<Rightarrow>
             if \<not> valid then (Inr False, audit ''fw_manifest'' ''in'' ''ERR: invalid FW_SIG'' s0)
             else
               (let url = dict_get resp ''FW3'';
                    checksum_hex = dict_get resp ''FW4'';
                    fw_id = dict_get_default resp ''FW1'' (Some ''fw'');
                    path = OTA_STAGING_DIR cfg @ ''/'' @ py_str fw_id @ ''.bin'';
                    (ok, s1) = download_to env url path s0
                in if \<not> ok
                   then (Inr False, audit ''fw_download'' ''in'' ''ERR: download failed'' s1)
                   else
                     (let (mismatch, s2) =
                            (if truthy checksum_hex
                             then (Some (sha256_hex env (now s1) path) \<noteq> checksum_hex, tick s1)
                             else (False, s1))
                      in if mismatch
                         then (Inr False, audit ''fw_checksum'' ''in'' ''ERR: checksum mismatch'' s2)
                         else
                           (let (applied, s3) =
                                  (if force_fail then (False, s2) else apply_staged env path s2)
                            in firmware_ack env cfg resp fw_id applied s3))))"

text \<open>
  \<open>_handle_command\<close>. Nothing in the \<open>try\<close> body raises, so its \<open>except\<close> branch is not
  reached; the \<open>finally\<close> block reads the clock again and calls \<open>command_ack\<close>.
\<close>

definition handle_command :: "env \<Rightarrow> config \<Rightarrow> tokens \<Rightarrow> state \<Rightarrow> (exc + unit) \<times> state" where
  "handle_command env cfg cmd s0 =
     (let cmd_id = dict_get_default cmd ''CMD1'' (Some '''');
          ctype = dict_get_default cmd ''CMD2'' (Some '''');
          start = time_at env (now s0);
          s1 = tick s0;
          (ok, message) =
            (if ctype = Some ''RESTART'' then (True, ''Restart simulated'')
             else if ctype = Some ''FETCH_LOGS''
             then (True, (let m = dict_get_default cmd ''CMD3'' (Some '''')
                          in if truthy m then py_str m else ''logs captured''))
             else (False, ''unsupported command '' @ py_str ctype));
          dur_ms = py_trunc ((time_at env (now s1) - start) * 1000);
          s2 = tick s1
      in case command_ack env cfg cmd_id ok message dur_ms s2 of
           (Inl e, s3) \<Rightarrow> (Inl e, s3)
         | (Inr resp, s3) \<Rightarrow> (Inr (), s3))"

text \<open>
  \<open>run_forever\<close>: the \<open>for\<close> loop over the commands, the \<open>try\<close> body of one iteration,
  one iteration with its \<open>except\<close> branch and its sleep, the first \<open>n\<close> iterations of the
  \<open>while True\<close> loop, and the function up to there. The loop has no exit, so the
  function is modelled by its first \<open>n\<close> iterations. \<open>init_db\<close>, which creates the tables,
  is left out.
\<close>

fun handle_all :: "env \<Rightarrow> config \<Rightarrow> tokens list \<Rightarrow> state \<Rightarrow> (exc + unit) \<times> state" where
  "handle_all env cfg [] s = (Inr (), s)"
| "handle_all env cfg (c # cs) s =
     (case handle_command env cfg c s of
        (Inl e, s') \<Rightarrow> (Inl e, s')
      | (Inr u, s') \<Rightarrow> handle_all env cfg cs s')"

definition iteration_body :: "env \<Rightarrow> config \<Rightarrow> state \<Rightarrow> (exc + unit) \<times> state" where
  "iteration_body env cfg s0 =
     (case heartbeat_once env cfg s0 of
        (Inl e, s1) \<Rightarrow> (Inl e, s1)
      | (Inr resp, s1) \<Rightarrow>
          (let pending = dict_get resp ''PENDING_CMDS'';
               polled =
                 (if truthy pending
                  then (case py_int_opt pending of
                          Inl e \<Rightarrow> (Inl e, s1)
                        | Inr n \<Rightarrow> if n > 0 then commands_poll env cfg s1 else (Inr [], s1))
                  else (Inr [], s1))
           in case polled of
                (Inl e, s2) \<Rightarrow> (Inl e, s2)
              | (Inr cmds, s2) \<Rightarrow>
                  (case handle_all env cfg cmds s2 of
                     (Inl e, s3) \<Rightarrow> (Inl e, s3)
                   | (Inr u, s3) \<Rightarrow>
                       if dict_get resp ''FW_AVAILABLE'' = Some ''true'' \<or> truthy (dict_get resp ''FW2'')
                       then (case firmware_check env cfg s3 of
                               (Inl e, s4) \<Rightarrow> (Inl e, s4)
                             | (Inr fw_resp, s4) \<Rightarrow>
                                 if dict_get fw_resp ''S1'' = Some ''update_available''
                                 then (case firmware_apply_flow env cfg fw_resp False s4 of
                                         (Inl e, s5) \<Rightarrow> (Inl e, s5)
                                       | (Inr applied, s5) \<Rightarrow> (Inr (), s5))
                                 else (Inr (), s4))
                       else (Inr (), s3))))"

definition run_iteration :: "env \<Rightarrow> config \<Rightarrow> int \<Rightarrow> state \<Rightarrow> int \<times> state" where
  "run_iteration env cfg backoff s0 =
     (case iteration_body env cfg s0 of
        (Inr u, s1) \<Rightarrow> (rto_sec s1, emit (Sleep (rto_sec s1)) s1)
      | (Inl e, s1) \<Rightarrow>
          (let s2 = audit ''error'' ''in'' (describe env e) s1;
               backoff' = min (MAX_BACKOFF_SECONDS cfg) (max 10 (backoff * 2))
           in (backoff', emit (Sleep backoff') s2)))"

fun run_loop :: "env \<Rightarrow> config \<Rightarrow> nat \<Rightarrow> int \<Rightarrow> state \<Rightarrow> int \<times> state" where
  "run_loop env cfg 0 backoff s = (backoff, s)"
| "run_loop env cfg (Suc n) backoff s =
     (case run_iteration env cfg backoff s of (backoff', s') \<Rightarrow> run_loop env cfg n backoff' s')"

definition run_forever :: "env \<Rightarrow> config \<Rightarrow> nat \<Rightarrow> state \<Rightarrow> (exc + int) \<times> state" where
  "run_forever env cfg n s0 =
     (case register env cfg s0 of
        (Inl e, s1) \<Rightarrow> (Inl e, s1)
      | (Inr u, s1) \<Rightarrow> (case run_loop env cfg n (rto_sec s1) s1 of (b, s2) \<Rightarrow> (Inr b, s2)))"

section \<open>Notions used in the statements\<close>

text \<open>
  Auxiliary notions for the statements about the codec: a part of a wire string that
  carries a colon and the entry it denotes; mappings that the wire format can carry
  (no \<open>None\<close> value, no delimiter inside a key, no \<open>|\<close> inside a value); strings
  that \<open>strip\<close> leaves alone; the wire form of one entry.
\<close>

definition has_colon :: "string \<Rightarrow> bool" where
  "has_colon p = (CHR '':'' \<in> set p)"

definition entry_of :: "string \<Rightarrow> string \<times> string option" where
  "entry_of p =
     (takeWhile (\<lambda>x. x \<noteq> CHR '':'') p, Some (tl (dropWhile (\<lambda>x. x \<noteq> CHR '':'') p)))"



definition item_str :: "string \<times> string option \<Rightarrow> string" where
  "item_str e = fst e @ '':'' @ py_str (snd e)"

text \<open>
  The entries \<open>to_canonical_string\<close> keeps, and the reserved keys as the specification
  words them (a key equal to or starting with \<open>SIG\<close>, equal to \<open>FW_SIG\<close>, or equal to
  \<open>SIG_SERV\<close>).
\<close>

definition canonical_keeps :: "string \<times> string option \<Rightarrow> bool" where
  "canonical_keeps e = (\<not> starts (fst e) ''SIG'' \<and> \<not> starts (fst e) ''FW_SIG'' \<and> snd e \<noteq> None)"

definition spec_reserved :: "string \<Rightarrow> bool" where
  "spec_reserved k = (starts k ''SIG'' \<or> k = ''FW_SIG'' \<or> k = ''SIG_SERV'')"

text \<open>
  Auxiliary notions for the statements about array tokens: a field key the regular
  expression accepts, a flat field mapping that the encoding can carry (not empty, keys
  distinct and accepted), the key \<open>PREFIX[i].FIELD\<close>, and the entries an item and a
  sequence of items are encoded to.
\<close>

definition valid_field :: "string \<Rightarrow> bool" where
  "valid_field k = (k \<noteq> [] \<and> list_all is_AZ09u k)"

definition flat_item :: "tokens \<Rightarrow> bool" where
  "flat_item item = (item \<noteq> [] \<and> distinct (map fst item) \<and> list_all (\<lambda>e. valid_field (fst e)) item)"

definition arr_key :: "string \<Rightarrow> nat \<Rightarrow> string \<Rightarrow> string" where
  "arr_key prefix i k = prefix @ ''['' @ str_nat i @ ''].'' @ k"

definition enc :: "string \<Rightarrow> nat \<Rightarrow> tokens \<Rightarrow> tokens" where
  "enc prefix i item = map (\<lambda>e. (arr_key prefix i (fst e), snd e)) item"

fun enc_all :: "string \<Rightarrow> nat \<Rightarrow> tokens list \<Rightarrow> tokens" where
  "enc_all prefix i [] = []"
| "enc_all prefix i (item # items) = enc prefix i item @ enc_all prefix (Suc i) items"

definition valid_prefix :: "string \<Rightarrow> bool" where
  "valid_prefix p = (p \<noteq> [] \<and> list_all is_AZ09 p)"

text \<open>
  Auxiliary notions for the statements about the client: the signed wire form of a
  message, and the payloads of the requests sent so far to one path.
\<close>

definition signed_payload :: "env \<Rightarrow> tokens \<Rightarrow> string" where
  "signed_payload env tokens =
     build_payload
       (dict_set tokens ''SIG1'' (Some (sign env (encode env (to_canonical_string tokens)))))"

fun posts_to :: "string \<Rightarrow> event list \<Rightarrow> string list" where
  "posts_to path [] = []"
| "posts_to path (Post p payload # es) =
     (if p = path then payload # posts_to path es else posts_to path es)"
| "posts_to path (e # es) = posts_to path es"


fun nonces_recorded :: "event list \<Rightarrow> string list" where
  "nonces_recorded [] = []"
| "nonces_recorded (AddNonce n # es) = n # nonces_recorded es"
| "nonces_recorded (e # es) = nonces_recorded es"



section \<open>An environment for the examples\<close>

text \<open>
  An environment for the examples. Base64 text is any string without \<open>!\<close>, a verify key is
  any non-empty byte string, and the signature of \<open>data\<close> under a key is the key followed by
  the data with \<open>|\<close> and \<open>:\<close> masked. The request made at the \<open>n\<close>-th read of the outside
  world to a path is answered with the text \<open>reply n path\<close>; downloads succeed, the staged
  file exists and its digest is \<open>digest\<close>; the clock advances a quarter of a second per read.
\<close>

definition mask :: "string \<Rightarrow> string" where
  "mask d =
     map (\<lambda>c. if c = CHR ''|'' then CHR ''/'' else if c = CHR '':'' then CHR ''='' else c) d"

definition test_env :: "(nat \<Rightarrow> string \<Rightarrow> string) \<Rightarrow> string \<Rightarrow> env" where
  "test_env reply digest =
     \<lparr>b64decode = (\<lambda>s. if CHR ''!'' \<in> set s then Inl ValueError else Inr s),
      VerifyKey = (\<lambda>k. if k = [] then Inl ValueError else Inr k),
      vk_verify = (\<lambda>k d s. if s = k @ mask d then Inr () else Inl BadSignatureError),
      encode = (\<lambda>s. s),
      sign = (\<lambda>d. ''devkey'' @ mask d),
      public_key_b64 = ''devkey'',
      ts_at = (\<lambda>n. ''2025-12-02T10:30:00.000Z''),
      nonce_at = (\<lambda>n. ''nonce'' @ str_nat n),
      time_at = (\<lambda>n. of_nat n / 4),
      telemetry_at = (\<lambda>n k. ''0''),
      http_post = (\<lambda>n path payload. Inr (200, reply n path)),
      http_get = (\<lambda>n path query. Inr (200, reply n path)),
      fetch = (\<lambda>n url path. True),
      sha256_hex = (\<lambda>n path. digest),
      path_exists = (\<lambda>n path. True),
      describe = (\<lambda>e. ''error'')\<rparr>"

definition test_cfg :: config where
  "test_cfg =
     \<lparr>DEVICE_ID = ''pi'', MANUFACTURER = ''Raspberry_Pi_Foundation'', MODEL = ''Pi_4_Model_B'',
      FIRMWARE_VERSION = ''1.0.0'', DEFAULT_RTO_SECONDS = 60, MAX_BACKOFF_SECONDS = 600,
      SERVER_PUBLIC_KEY_BASE64 = ''srvkey'', OTA_STAGING_DIR = ''/home/pi/.toon/staging''\<rparr>"

section \<open>Dictionaries\<close>

lemma map_of_dict_set: "map_of (dict_set d k v) = (map_of d)(k \<mapsto> v)"
  by (induction d) (auto simp: fun_eq_iff)

lemma keys_dict_set: "fst ` set (dict_set d k v) = insert k (fst ` set d)"
  by (simp add: dom_map_of_conv_image_fst [symmetric] map_of_dict_set)

lemma distinct_dict_set: "distinct (map fst d) \<Longrightarrow> distinct (map fst (dict_set d k v))"
  by (induction d) (auto simp: keys_dict_set)

lemma dict_set_fresh: "k \<notin> fst ` set d \<Longrightarrow> dict_set d k v = d @ [(k, v)]"
  by (induction d) auto

lemma parse_parts_fold:
  "parse_parts ps out =
     Inr (foldl (\<lambda>d p. dict_set d (fst (entry_of p)) (snd (entry_of p))) out (filter has_colon ps))"
  by (induction ps arbitrary: out) (auto simp: split1_def has_colon_def entry_of_def)

lemma foldl_dict_set_map_of:
  "map_of (foldl (\<lambda>d p. dict_set d (fst (f p)) (snd (f p))) out ps) k =
     (case map_of (rev (map f ps)) k of None \<Rightarrow> map_of out k | Some v \<Rightarrow> Some v)"
  by (induction ps arbitrary: out) (auto simp: map_of_dict_set map_add_def split: option.splits)

lemma foldl_dict_set_distinct:
  "distinct (map fst out) \<Longrightarrow> distinct (map fst (foldl (\<lambda>d p. dict_set d (fst (f p)) (snd (f p))) out ps))"
  by (induction ps arbitrary: out) (auto simp: distinct_dict_set)

lemma foldl_dict_set_keys:
  "fst ` set (foldl (\<lambda>d p. dict_set d (fst (f p)) (snd (f p))) out ps) = fst ` set out \<union> (fst \<circ> f) ` set ps"
  by (induction ps arbitrary: out) (auto simp: keys_dict_set)






section \<open>The wire format: \<open>parse_tokens\<close> and \<open>build_payload\<close>\<close>

lemma parse_tokens_fold:
  "parse_tokens payload =
     Inr (foldl (\<lambda>d p. dict_set d (fst (entry_of p)) (snd (entry_of p))) []
            (filter has_colon (split_chr CHR ''|'' (strip payload))))"
  by (simp add: parse_tokens_def parse_parts_fold strip_def has_colon_def)

lemma entry_of_item: "CHR '':'' \<notin> set k \<Longrightarrow> entry_of (k @ CHR '':'' # v) = (k, Some v)"
  by (induction k) (auto simp: entry_of_def)

lemma starts_key:
  "CHR '':'' \<notin> set k \<Longrightarrow> starts q (k @ '':'') \<longleftrightarrow> (has_colon q \<and> fst (entry_of q) = k)"
proof
  assume k: "CHR '':'' \<notin> set k" and "starts q (k @ '':'')"
  then have "take (length k + 1) q = k @ '':''" by (simp add: starts_def)
  then have "q = (k @ '':'') @ drop (length k + 1) q" by (metis append_take_drop_id)
  then obtain r where q: "q = k @ CHR '':'' # r" by auto
  show "has_colon q \<and> fst (entry_of q) = k"
    using k by (simp add: q has_colon_def entry_of_item)
next
  assume k: "CHR '':'' \<notin> set k" and h: "has_colon q \<and> fst (entry_of q) = k"
  then have c: "CHR '':'' \<in> set q" and t: "takeWhile (\<lambda>x. x \<noteq> CHR '':'') q = k"
    by (auto simp: has_colon_def entry_of_def)
  from c have "dropWhile (\<lambda>x. x \<noteq> CHR '':'') q \<noteq> []" by simp
  then obtain y r where d: "dropWhile (\<lambda>x. x \<noteq> CHR '':'') q = y # r"
    by (cases "dropWhile (\<lambda>x. x \<noteq> CHR '':'') q") auto
  then have "y = CHR '':''" using hd_dropWhile[of "\<lambda>x. x \<noteq> CHR '':''" q] by auto
  with d t have "q = k @ CHR '':'' # r" by (metis takeWhile_dropWhile_id)
  then show "starts q (k @ '':'')" by (simp add: starts_def)
qed

text \<open>
  Claim C10. \<open>parse_tokens\<close> returns a mapping for every input string and never raises:
  the empty string gives the empty mapping, a key is in the result exactly when some part
  of the stripped string split at \<open>|\<close> carries a colon and has that key before its first
  colon (so parts without a colon are skipped), and when a key occurs in several parts the
  value of the last such part is the one stored.
\<close>

theorem parse_tokens_total:
  "\<exists>d. parse_tokens payload = Inr d \<and> distinct (map fst d)
     \<and> (payload = [] \<longrightarrow> d = [])
     \<and> (\<forall>k. dict_has d k \<longleftrightarrow>
           (\<exists>p \<in> set (split_chr CHR ''|'' (strip payload)).
              CHR '':'' \<in> set p \<and> takeWhile (\<lambda>x. x \<noteq> CHR '':'') p = k))
     \<and> (\<forall>ps k v qs.
           split_chr CHR ''|'' (strip payload) = ps @ (k @ '':'' @ v) # qs
           \<and> CHR '':'' \<notin> set k \<and> (\<forall>q \<in> set qs. \<not> starts q (k @ '':''))
           \<longrightarrow> map_of d k = Some (Some v))"
proof -
  let ?parts = "split_chr CHR ''|'' (strip payload)"
  let ?d = "foldl (\<lambda>d p. dict_set d (fst (entry_of p)) (snd (entry_of p))) []
              (filter has_colon ?parts)"
  have 1: "parse_tokens payload = Inr ?d" by (rule parse_tokens_fold)
  have 2: "distinct (map fst ?d)" by (rule foldl_dict_set_distinct) simp
  have 3: "payload = [] \<longrightarrow> ?d = []" by (simp add: strip_def has_colon_def)
  have 4: "dict_has ?d k \<longleftrightarrow>
           (\<exists>p \<in> set ?parts. CHR '':'' \<in> set p \<and> takeWhile (\<lambda>x. x \<noteq> CHR '':'') p = k)" for k
  proof -
    have "dict_has ?d k \<longleftrightarrow> k \<in> fst ` set ?d"
      by (simp add: dict_has_def dom_map_of_conv_image_fst [symmetric] domIff)
    also have "\<dots> \<longleftrightarrow> k \<in> (fst \<circ> entry_of) ` set (filter has_colon ?parts)"
      by (simp only: foldl_dict_set_keys) simp
    also have "\<dots> \<longleftrightarrow> (\<exists>p \<in> set ?parts. CHR '':'' \<in> set p \<and> takeWhile (\<lambda>x. x \<noteq> CHR '':'') p = k)"
      by (auto simp: has_colon_def entry_of_def)
    finally show ?thesis .
  qed
  have 5: "map_of ?d k = Some (Some v)"
    if parts: "?parts = ps @ (k @ '':'' @ v) # qs" and k: "CHR '':'' \<notin> set k"
      and later: "\<forall>q \<in> set qs. \<not> starts q (k @ '':'')" for ps k v qs
  proof -
    have none: "map_of (rev (map entry_of (filter has_colon qs))) k = None"
      using later k by (auto simp: map_of_eq_None_iff starts_key)
    have "has_colon (k @ '':'' @ v)" by (simp add: has_colon_def)
    then have "map_of (rev (map entry_of (filter has_colon ?parts))) k = Some (Some v)"
      using none k by (simp add: parts map_add_def entry_of_item)
    then show ?thesis by (simp add: foldl_dict_set_map_of)
  qed
  show ?thesis using 1 2 3 4 5 by blast
qed

text \<open>The theorem at a wire string with a duplicated key and a part without a colon.\<close>

theorem parse_tokens_total_witness:
  "\<exists>d. parse_tokens ''A:1|junk|A:3|B:'' = Inr d \<and> map_of d ''A'' = Some (Some ''3'')
       \<and> \<not> dict_has d ''junk''"
proof -
  have parts: "split_chr CHR ''|'' (strip ''A:1|junk|A:3|B:'') = [''A:1'', ''junk''] @ (''A'' @ '':'' @ ''3'') # [''B:'']"
    by (simp add: strip_def is_space_def)
  from parse_tokens_total [of "''A:1|junk|A:3|B:''"]
  obtain d where d: "parse_tokens ''A:1|junk|A:3|B:'' = Inr d"
    and has: "\<forall>k. dict_has d k \<longleftrightarrow>
           (\<exists>p \<in> set (split_chr CHR ''|'' (strip ''A:1|junk|A:3|B:'')).
              CHR '':'' \<in> set p \<and> takeWhile (\<lambda>x. x \<noteq> CHR '':'') p = k)"
    and last: "\<forall>ps k v qs.
           split_chr CHR ''|'' (strip ''A:1|junk|A:3|B:'') = ps @ (k @ '':'' @ v) # qs
           \<and> CHR '':'' \<notin> set k \<and> (\<forall>q \<in> set qs. \<not> starts q (k @ '':''))
           \<longrightarrow> map_of d k = Some (Some v)"
    by blast
  have "CHR '':'' \<notin> set ''A'' \<and> (\<forall>q \<in> set [''B:'']. \<not> starts q (''A'' @ '':''))"
    by (simp add: starts_def)
  with last parts have a: "map_of d ''A'' = Some (Some ''3'')" by blast
  have "\<not> dict_has d ''junk''"
    unfolding has [rule_format] parts by simp
  with d a show ?thesis by blast
qed





section \<open>The canonical form: \<open>to_canonical_string\<close>\<close>

lemma starts_SIG_SERV: "starts k ''SIG_SERV'' \<Longrightarrow> starts k ''SIG''"
proof -
  assume "starts k ''SIG_SERV''"
  then have k: "take (length ''SIG_SERV'') k = ''SIG_SERV''" by (simp only: starts_def)
  have "take (length ''SIG'') k = take (length ''SIG'') (take (length ''SIG_SERV'') k)"
    by (simp add: min_def)
  also have "\<dots> = ''SIG''" by (simp only: k) simp
  finally show ?thesis by (simp only: starts_def)
qed

lemma startswith_SIG_PREFIX:
  "startswith k SIG_PREFIX \<longleftrightarrow> starts k ''SIG'' \<or> starts k ''FW_SIG''"
  using starts_SIG_SERV [of k] by (auto simp: startswith_def SIG_PREFIX_def)

lemma canonical_items_entries:
  "\<forall>e \<in> set xs. map_of t (fst e) = Some (snd e) \<Longrightarrow>
     canonical_items t (map fst xs) = map item_str (filter canonical_keeps xs)"
  by (induction xs)
    (auto simp: startswith_SIG_PREFIX canonical_keeps_def dict_get_def item_str_def py_str_def
      split: option.splits)

lemma map_fst_insort_key: "map f (insort_key f x xs) = insort (f x) (map f xs)"
  by (induction xs) auto

lemma map_fst_sort_key: "map f (sort_key f xs) = sort (map f xs)"
  by (induction xs) (auto simp: map_fst_insort_key)

lemma sort_key_unique:
  assumes "distinct (map fst t)" "distinct (map fst t')" "set t' = set t"
  shows "sort_key fst t' = sort_key fst (t :: ('a::linorder \<times> 'b) list)"
proof (rule map_sorted_distinct_set_unique [where f = fst])
  show "inj_on fst (set (sort_key fst t') \<union> set (sort_key fst t))"
    using assms by (simp add: distinct_map)
qed (use assms in \<open>simp_all add: map_fst_sort_key\<close>)

text \<open>
  Claim C5, as amended. For a mapping with distinct keys, \<open>to_canonical_string\<close> joins with
  \<open>|\<close> the entries \<open>key:value\<close> in ascending order of the keys, leaving out exactly the
  entries whose key starts with \<open>SIG\<close> or starts with \<open>FW_SIG\<close> (which covers \<open>SIG_SERV\<close>) and
  the entries whose value is \<open>None\<close>; and two mappings with the same entries in any insertion
  order have the same canonical string.
\<close>

theorem canonical_form:
  assumes "distinct (map fst t)"
  shows "to_canonical_string t = join ''|'' (map item_str (filter canonical_keeps (sort_key fst t)))
       \<and> sorted (map fst (filter canonical_keeps (sort_key fst t)))
       \<and> (\<forall>t'. distinct (map fst t') \<and> set t' = set t
             \<longrightarrow> to_canonical_string t' = to_canonical_string t)"
proof -
  have form: "to_canonical_string u = join ''|'' (map item_str (filter canonical_keeps (sort_key fst u)))"
    if "distinct (map fst u)" for u :: tokens
  proof -
    have "\<forall>e \<in> set (sort_key fst u). map_of u (fst e) = Some (snd e)"
      using that by auto
    then show ?thesis
      using canonical_items_entries [of "sort_key fst u" u]
      by (simp add: to_canonical_string_def dict_keys_def map_fst_sort_key)
  qed
  have "sorted (map fst (sort_key fst t))" by simp
  then have srt: "sorted (map fst (filter canonical_keeps (sort_key fst t)))"
    by (metis sorted_filter)
  have inv: "to_canonical_string t' = to_canonical_string t"
    if "distinct (map fst t')" "set t' = set t" for t'
    using that assms by (simp add: form sort_key_unique [of t t'])
  show ?thesis using form [OF assms] srt inv by blast
qed

text \<open>The canonical form of a four-entry message, and of a permutation of it.\<close>

theorem canonical_form_witness:
  "distinct (map fst [(''TS'', Some ''t''), (''SIG1'', Some ''s''), (''D1'', Some ''d''), (''X'', None)])
   \<and> to_canonical_string [(''TS'', Some ''t''), (''SIG1'', Some ''s''), (''D1'', Some ''d''), (''X'', None)]
       = ''D1:d|TS:t''
   \<and> to_canonical_string [(''X'', None), (''D1'', Some ''d''), (''SIG1'', Some ''s''), (''TS'', Some ''t'')]
       = to_canonical_string [(''TS'', Some ''t''), (''SIG1'', Some ''s''), (''D1'', Some ''d''), (''X'', None)]"
proof -
  let ?t = "[(''TS'', Some ''t''), (''SIG1'', Some ''s''), (''D1'', Some ''d''), (''X'', None)]"
  let ?t' = "[(''X'', None), (''D1'', Some ''d''), (''SIG1'', Some ''s''), (''TS'', Some ''t'')]"
  have d: "distinct (map fst ?t)" by simp
  have d': "distinct (map fst ?t') \<and> set ?t' = set ?t" by auto
  have v: "join ''|'' (map item_str (filter canonical_keeps (sort_key fst ?t))) = ''D1:d|TS:t''"
    by (simp add: canonical_keeps_def starts_def item_str_def py_str_def less_eq_char_def less_char_def)
  from canonical_form [OF d] d' v d show ?thesis by metis
qed

text \<open>
  Claim C5 as stated fails: \<open>FW_SIG\<close> is matched as a prefix, not by equality, so the key
  \<open>FW_SIGNED\<close>, which the stated rule keeps, is left out.
\<close>

theorem canonical_reserved_counterexample:
  "\<not> spec_reserved ''FW_SIGNED''
   \<and> to_canonical_string [(''FW_SIGNED'', Some ''1''), (''A'', Some ''2'')] = ''A:2''"
  by (simp add: spec_reserved_def starts_def to_canonical_string_def dict_keys_def dict_get_def
      startswith_def SIG_PREFIX_def less_eq_char_def less_char_def)

section \<open>Array tokens: \<open>build_array_tokens\<close> and \<open>parse_array_tokens\<close>\<close>

lemma digit_chr_props: "d < 10 \<Longrightarrow> is_digit (digit_chr d) \<and> digit_val (digit_chr d) = d"
proof -
  assume "d < 10"
  then have "d \<in> {0,1,2,3,4,5,6,7,8,9}" by auto
  then show ?thesis
    by (auto simp: is_digit_def digit_val_def digit_chr_def)
qed

lemma nat_of_digits_snoc: "nat_of_digits (s @ [c]) = 10 * nat_of_digits s + digit_val c"
  by (simp add: nat_of_digits_def)

lemma str_nat_digits: "list_all is_digit (str_nat n) \<and> str_nat n \<noteq> [] \<and> nat_of_digits (str_nat n) = n"
proof (induction n rule: str_nat.induct)
  case (1 n)
  show ?case
  proof (cases "n < 10")
    case True
    then show ?thesis
      using digit_chr_props [of n] by (simp add: str_nat.simps [of n] nat_of_digits_def)
  next
    case False
    then have "n mod 10 < 10" by simp
    with False 1 show ?thesis
      using digit_chr_props [of "n mod 10"]
      by (simp add: str_nat.simps [of n] nat_of_digits_snoc)
  qed
qed

lemma takeWhile_all: "list_all P xs \<Longrightarrow> \<not> P c \<Longrightarrow> takeWhile P (xs @ c # r) = xs \<and> dropWhile P (xs @ c # r) = c # r"
  by (induction xs) auto

lemma takeWhile_all_end: "list_all P xs \<Longrightarrow> takeWhile P xs = xs \<and> dropWhile P xs = []"
  by (induction xs) auto

lemma class_facts:
  "\<not> is_AZ09 CHR ''[''" "\<not> is_AZ09 CHR ''_''" "\<not> is_digit CHR '']''"
  by (simp_all add: is_AZ09_def is_upper_def is_digit_def)

lemma array_key_match_arr_key:
  assumes p: "p \<noteq> []" "list_all is_AZ09 p" and k: "valid_field k"
  shows "array_key_match (arr_key p i k) = Some (p, str_nat i, k)"
proof -
  have 1: "takeWhile is_AZ09 (p @ CHR ''['' # str_nat i @ CHR '']'' # CHR ''.'' # k) = p"
     "dropWhile is_AZ09 (p @ CHR ''['' # str_nat i @ CHR '']'' # CHR ''.'' # k)
        = CHR ''['' # str_nat i @ CHR '']'' # CHR ''.'' # k"
    using takeWhile_all [OF p(2) class_facts(1)] by auto
  have 2: "takeWhile is_digit (str_nat i @ CHR '']'' # CHR ''.'' # k) = str_nat i"
     "dropWhile is_digit (str_nat i @ CHR '']'' # CHR ''.'' # k) = CHR '']'' # CHR ''.'' # k"
    using takeWhile_all [of is_digit "str_nat i" "CHR '']''" "CHR ''.'' # k"] class_facts(3)
      str_nat_digits [of i] by auto
  have 3: "takeWhile is_AZ09u k = k" "dropWhile is_AZ09u k = []"
    using k takeWhile_all_end [of is_AZ09u k] by (auto simp: valid_field_def)
  show ?thesis
    using p(1) k str_nat_digits [of i]
    by (simp add: array_key_match_def arr_key_def 1 2 3 valid_field_def Let_def list_all_iff)
qed

lemma array_key_match_count:
  assumes p: "p \<noteq> []" "list_all is_AZ09 p"
  shows "array_key_match (p @ ''_COUNT'') = None"
proof -
  have "takeWhile is_AZ09 (p @ CHR ''_'' # ''COUNT'') = p"
     "dropWhile is_AZ09 (p @ CHR ''_'' # ''COUNT'') = CHR ''_'' # ''COUNT''"
    using takeWhile_all [OF p(2) class_facts(2)] by auto
  then show ?thesis using p(1) by (simp add: array_key_match_def Let_def)
qed

lemma arr_key_inj:
  assumes p: "p \<noteq> []" "list_all is_AZ09 p" and k: "valid_field k" "valid_field k'"
    and eq: "arr_key p i k = arr_key p j k'"
  shows "i = j \<and> k = k'"
proof -
  have "array_key_match (arr_key p i k) = array_key_match (arr_key p j k')" using eq by simp
  then have "str_nat i = str_nat j \<and> k = k'"
    using p k by (simp add: array_key_match_arr_key)
  moreover have "nat_of_digits (str_nat i) = i" "nat_of_digits (str_nat j) = j"
    using str_nat_digits by auto
  ultimately show ?thesis by metis
qed

lemma build_item_app:
  assumes vp: "valid_prefix p"
    and "list_all (\<lambda>e. valid_field (fst e)) item" "distinct (map fst item)"
    and "\<forall>e \<in> set item. arr_key p i (fst e) \<notin> fst ` set out"
  shows "build_item p i item out = out @ enc p i item"
  using assms(2-)
proof (induction item arbitrary: out)
  case Nil
  then show ?case by (simp add: enc_def)
next
  case (Cons e item)
  obtain k v where e: "e = (k, v)" by (cases e)
  have fresh: "arr_key p i k \<notin> fst ` set out" using Cons.prems(3) by (simp add: e)
  have step: "dict_set out (arr_key p i k) v = out @ [(arr_key p i k, v)]"
    using fresh by (rule dict_set_fresh)
  have next_fresh: "\<forall>e' \<in> set item. arr_key p i (fst e') \<notin> fst ` set (out @ [(arr_key p i k, v)])"
  proof
    fix e' assume e': "e' \<in> set item"
    have "fst e' \<noteq> k" using Cons.prems(2) e' by (auto simp: e)
    moreover have "valid_field (fst e')" "valid_field k"
      using Cons.prems(1) e' by (auto simp: e list_all_iff)
    ultimately have "arr_key p i (fst e') \<noteq> arr_key p i k"
      using arr_key_inj [of p "fst e'" k i i] vp by (auto simp: valid_prefix_def)
    then show "arr_key p i (fst e') \<notin> fst ` set (out @ [(arr_key p i k, v)])"
      using Cons.prems(3) e' by auto
  qed
  have "build_item p i item (out @ [(arr_key p i k, v)]) = (out @ [(arr_key p i k, v)]) @ enc p i item"
    using Cons.prems(1,2) next_fresh by (intro Cons.IH) auto
  then show ?case using step by (simp add: e enc_def arr_key_def)
qed

lemma build_items_app:
  assumes vp: "valid_prefix p"
    and "list_all flat_item items"
    and "\<forall>key \<in> fst ` set out. \<exists>j k. j < i \<and> valid_field k \<and> key = arr_key p j k"
  shows "build_items p i items out = out @ enc_all p i items"
  using assms(2-)
proof (induction items arbitrary: i out)
  case Nil
  then show ?case by simp
next
  case (Cons item items)
  have flat: "list_all (\<lambda>e. valid_field (fst e)) item" "distinct (map fst item)"
    using Cons.prems(1) by (auto simp: flat_item_def)
  have fresh: "\<forall>e \<in> set item. arr_key p i (fst e) \<notin> fst ` set out"
  proof
    fix e assume e: "e \<in> set item"
    then have ve: "valid_field (fst e)" using flat(1) by (auto simp: list_all_iff)
    show "arr_key p i (fst e) \<notin> fst ` set out"
    proof
      assume "arr_key p i (fst e) \<in> fst ` set out"
      then obtain j k where "j < i" "valid_field k" "arr_key p i (fst e) = arr_key p j k"
        using Cons.prems(2) by blast
      then show False using arr_key_inj [of p "fst e" k i j] vp ve by (auto simp: valid_prefix_def)
    qed
  qed
  have one: "build_item p i item out = out @ enc p i item"
    using vp flat fresh by (rule build_item_app)
  have inv: "\<forall>key \<in> fst ` set (out @ enc p i item).
               \<exists>j k. j < Suc i \<and> valid_field k \<and> key = arr_key p j k"
  proof
    fix key assume "key \<in> fst ` set (out @ enc p i item)"
    then consider "key \<in> fst ` set out" | "key \<in> fst ` set (enc p i item)" by auto
    then show "\<exists>j k. j < Suc i \<and> valid_field k \<and> key = arr_key p j k"
    proof cases
      case 1
      then obtain j k where "j < i" "valid_field k" "key = arr_key p j k"
        using Cons.prems(2) by blast
      then show ?thesis by (intro exI [of _ j] exI [of _ k]) simp
    next
      case 2
      then obtain e where "e \<in> set item" "key = arr_key p i (fst e)" by (auto simp: enc_def)
      then show ?thesis using flat(1) by (intro exI [of _ i] exI [of _ "fst e"]) (auto simp: list_all_iff)
    qed
  qed
  have "build_items p (Suc i) items (out @ enc p i item) = (out @ enc p i item) @ enc_all p (Suc i) items"
    using Cons.prems(1) inv by (intro Cons.IH) auto
  then show ?case by (simp add: one)
qed

lemma enc_all_keys:
  "key \<in> fst ` set (enc_all p i items) \<Longrightarrow> list_all flat_item items \<Longrightarrow>
     \<exists>j k. valid_field k \<and> key = arr_key p j k"
proof (induction items arbitrary: i)
  case Nil
  then show ?case by simp
next
  case (Cons item items)
  from Cons.prems(1) consider "key \<in> fst ` set (enc p i item)" | "key \<in> fst ` set (enc_all p (Suc i) items)"
    by auto
  then show ?case
  proof cases
    case 1
    then obtain e where "e \<in> set item" "key = arr_key p i (fst e)" by (auto simp: enc_def)
    then show ?thesis using Cons.prems(2) by (auto simp: flat_item_def list_all_iff)
  next
    case 2
    then show ?thesis using Cons.IH Cons.prems(2) by auto
  qed
qed

lemma build_array_tokens_enc:
  assumes vp: "valid_prefix p" and flat: "list_all flat_item items"
  shows "build_array_tokens items p =
           enc_all p 0 items @ [(p @ ''_COUNT'', Some (str_nat (length items)))]"
proof -
  have 1: "build_items p 0 items [] = [] @ enc_all p 0 items"
    using vp flat by (rule build_items_app) simp
  have "p @ ''_COUNT'' \<notin> fst ` set (enc_all p 0 items)"
  proof
    assume "p @ ''_COUNT'' \<in> fst ` set (enc_all p 0 items)"
    then obtain j k where "valid_field k" "p @ ''_COUNT'' = arr_key p j k"
      using enc_all_keys flat by blast
    then have "array_key_match (p @ ''_COUNT'') = Some (p, str_nat j, k)"
      using array_key_match_arr_key [of p k j] vp by (simp add: valid_prefix_def)
    then show False using array_key_match_count [of p] vp by (simp add: valid_prefix_def)
  qed
  then show ?thesis using 1 by (simp add: build_array_tokens_def dict_set_fresh)
qed

lemma dict_set_last: "i \<notin> fst ` set bs \<Longrightarrow> dict_set (bs @ [(i, cur)]) i x = bs @ [(i, x)]"
  by (induction bs) auto

lemma map_of_last: "i \<notin> fst ` set bs \<Longrightarrow> map_of (bs @ [(i, cur)]) i = Some cur"
  by (induction bs) auto

lemma map_of_absent: "i \<notin> fst ` set bs \<Longrightarrow> map_of bs i = None"
  by (simp add: map_of_eq_None_iff)

lemma parse_item_rest:
  assumes vp: "valid_prefix p"
    and "list_all (\<lambda>e. valid_field (fst e)) mo" "distinct (map fst (cur @ mo))"
    and fresh: "i \<notin> fst ` set bs"
  shows "parse_array_loop (enc p i mo @ rest) p (bs @ [(i, cur)])
           = parse_array_loop rest p (bs @ [(i, cur @ mo)])"
  using assms(2,3)
proof (induction mo arbitrary: cur)
  case Nil
  then show ?case by (simp add: enc_def)
next
  case (Cons e mo)
  obtain k v where e: "e = (k, v)" by (cases e)
  have vk: "valid_field k" using Cons.prems(1) by (simp add: e)
  have m: "array_key_match (arr_key p i k) = Some (p, str_nat i, k)"
    using vp vk by (intro array_key_match_arr_key) (auto simp: valid_prefix_def)
  have n: "nat_of_digits (str_nat i) = i" using str_nat_digits by simp
  have k: "k \<notin> fst ` set cur" using Cons.prems(2) by (auto simp: e)
  have step: "dict_set (bs @ [(i, cur)]) i (dict_set cur k v) = bs @ [(i, cur @ [(k, v)])]"
    using fresh k by (simp add: dict_set_last dict_set_fresh)
  have "parse_array_loop (enc p i mo @ rest) p (bs @ [(i, cur @ [(k, v)])])
          = parse_array_loop rest p (bs @ [(i, (cur @ [(k, v)]) @ mo)])"
    using Cons.prems by (intro Cons.IH) (auto simp: e)
  then show ?case
    using fresh by (simp add: e enc_def m n map_of_last step del: map_of_append)
qed

lemma parse_item_first:
  assumes vp: "valid_prefix p" and flat: "flat_item item" and fresh: "i \<notin> fst ` set bs"
  shows "parse_array_loop (enc p i item @ rest) p bs = parse_array_loop rest p (bs @ [(i, item)])"
proof -
  from flat obtain e mo where item: "item = e # mo" by (cases item) (auto simp: flat_item_def)
  obtain k v where e: "e = (k, v)" by (cases e)
  have vk: "valid_field k" using flat by (simp add: item e flat_item_def)
  have m: "array_key_match (arr_key p i k) = Some (p, str_nat i, k)"
    using vp vk by (intro array_key_match_arr_key) (auto simp: valid_prefix_def)
  have n: "nat_of_digits (str_nat i) = i" using str_nat_digits by simp
  have step: "dict_set bs i [(k, v)] = bs @ [(i, [(k, v)])]" using fresh by (rule dict_set_fresh)
  have "parse_array_loop (enc p i mo @ rest) p (bs @ [(i, [(k, v)])])
          = parse_array_loop rest p (bs @ [(i, [(k, v)] @ mo)])"
    using vp _ _ fresh by (rule parse_item_rest) (use flat in \<open>auto simp: item e flat_item_def\<close>)
  then show ?thesis
    using fresh by (simp add: item e enc_def m n map_of_absent step)
qed

lemma parse_all:
  assumes vp: "valid_prefix p"
    and "list_all flat_item items" "\<forall>j \<in> fst ` set bs. j < i"
  shows "parse_array_loop (enc_all p i items @ rest) p bs
           = parse_array_loop rest p (bs @ zip [i ..< i + length items] items)"
  using assms(2,3)
proof (induction items arbitrary: i bs)
  case Nil
  then show ?case by simp
next
  case (Cons item items)
  have fresh: "i \<notin> fst ` set bs" using Cons.prems(2) by auto
  have one: "parse_array_loop (enc p i item @ enc_all p (Suc i) items @ rest) p bs
               = parse_array_loop (enc_all p (Suc i) items @ rest) p (bs @ [(i, item)])"
    using vp _ fresh by (rule parse_item_first) (use Cons.prems in simp)
  have two: "parse_array_loop (enc_all p (Suc i) items @ rest) p (bs @ [(i, item)])
               = parse_array_loop rest p ((bs @ [(i, item)]) @ zip [Suc i ..< Suc i + length items] items)"
    using Cons.prems by (intro Cons.IH) (auto simp: less_Suc_eq)
  have z: "zip [i ..< i + length (item # items)] (item # items)
             = (i, item) # zip [Suc i ..< Suc i + length items] items"
    by (simp add: upt_conv_Cons del: upt_Suc)
  show ?case unfolding z using one two by simp
qed

lemma map_filter_cong: "\<forall>x \<in> set xs. f x = g x \<Longrightarrow> List.map_filter f xs = List.map_filter g xs"
  by (induction xs) (auto split: option.splits)

lemma map_filter_map_of: "distinct (map fst b) \<Longrightarrow> List.map_filter (map_of b) (map fst b) = map snd b"
proof (induction b)
  case Nil
  then show ?case by simp
next
  case (Cons e b)
  obtain k v where e: "e = (k, v)" by (cases e)
  define f where "f = map_of ((k, v) # b)"
  have fk: "f k = Some v" by (simp add: f_def)
  have "k \<notin> fst ` set b" using Cons.prems by (simp add: e)
  then have "\<forall>x \<in> set (map fst b). f x = map_of b x" by (auto simp: f_def)
  then have "List.map_filter f (map fst b) = List.map_filter (map_of b) (map fst b)"
    by (rule map_filter_cong)
  also have "\<dots> = map snd b" using Cons by simp
  finally have "List.map_filter f (k # map fst b) = v # map snd b" by (simp add: fk)
  then show ?case unfolding f_def by (simp only: e list.map fst_conv snd_conv)
qed

lemma array_roundtrip_general:
  assumes vp: "valid_prefix p" and flat: "list_all flat_item seq"
  shows "parse_array_tokens (build_array_tokens seq p) p = seq"
proof -
  let ?n = "length seq"
  let ?count = "[(p @ ''_COUNT'', Some (str_nat ?n))]"
  let ?b = "zip [0 ..< ?n] seq"
  have enc: "build_array_tokens seq p = enc_all p 0 seq @ ?count"
    using vp flat by (rule build_array_tokens_enc)
  have "parse_array_loop (enc_all p 0 seq @ ?count) p [] = parse_array_loop ?count p ([] @ zip [0 ..< 0 + ?n] seq)"
    using vp flat by (rule parse_all) simp
  also have "\<dots> = ?b"
    using array_key_match_count [of p] vp by (simp add: valid_prefix_def)
  finally have loop: "parse_array_loop (build_array_tokens seq p) p [] = ?b" by (simp add: enc)
  have keys: "map fst ?b = [0 ..< ?n]" by simp
  have vals: "map snd ?b = seq" by simp
  have srt: "sort [0 ..< ?n] = [0 ..< ?n]" by (simp add: sorted_sort_id)
  have "List.map_filter (map_of ?b) (map fst ?b) = map snd ?b"
    by (rule map_filter_map_of) (simp only: keys distinct_upt)
  then show ?thesis
    by (simp only: parse_array_tokens_def Let_def loop dict_keys_def keys srt vals)
qed

text \<open>
  Claim C8, as amended. Decoding the array encoding gives the sequence back, item for item
  and in order, for every sequence of field mappings each of which is not empty and has
  distinct keys that are non-empty strings over \<open>A-Z\<close>, \<open>0-9\<close> and \<open>_\<close>.
\<close>

theorem array_roundtrip:
  "list_all flat_item seq \<Longrightarrow> parse_array_tokens (build_array_tokens seq ''CMD'') ''CMD'' = seq"
proof -
  assume flat: "list_all flat_item seq"
  have "valid_prefix ''CMD''"
    by (simp add: valid_prefix_def is_AZ09_def is_upper_def)
  then show ?thesis using flat by (rule array_roundtrip_general)
qed

text \<open>The round trip at a list of two commands.\<close>

theorem array_roundtrip_witness:
  "list_all flat_item [[(''CMD1'', Some ''c1''), (''CMD2'', Some ''RESTART'')], [(''CMD1'', Some ''c2'')]]
   \<and> parse_array_tokens
        (build_array_tokens [[(''CMD1'', Some ''c1''), (''CMD2'', Some ''RESTART'')], [(''CMD1'', Some ''c2'')]] ''CMD'')
        ''CMD''
       = [[(''CMD1'', Some ''c1''), (''CMD2'', Some ''RESTART'')], [(''CMD1'', Some ''c2'')]]"
proof -
  have flat: "list_all flat_item [[(''CMD1'', Some ''c1''), (''CMD2'', Some ''RESTART'')], [(''CMD1'', Some ''c2'')]]"
    by (simp add: flat_item_def valid_field_def is_AZ09u_def is_upper_def is_digit_def)
  show ?thesis using flat array_roundtrip [OF flat] by simp
qed

text \<open>
  Claim C8 as stated fails: an empty mapping contributes no key to the encoding, so the
  decoder never sees its index and the sequence comes back one item shorter.
\<close>

theorem array_roundtrip_empty_item_counterexample:
  "parse_array_tokens (build_array_tokens [[(''CMD1'', Some ''c1'')], []] ''CMD'') ''CMD''
     = [[(''CMD1'', Some ''c1'')]]"
  by code_simp

text \<open>A field key outside the class of the regular expression is dropped as well.\<close>

lemma array_roundtrip_lowercase:
  "parse_array_tokens (build_array_tokens [[(''cmd'', Some ''c1'')]] ''CMD'') ''CMD''
     = []"
  by code_simp

section \<open>keys.py: verification\<close>

text \<open>
  Claim C9. \<open>verify_with_public_b64\<close> never raises, for every key string, data and
  signature string, given that the libraries raise what they document for these argument
  types: \<open>base64.b64decode\<close> a \<open>binascii.Error\<close> (a \<open>ValueError\<close>), \<open>VerifyKey\<close> a
  \<open>ValueError\<close>, and \<open>verify\<close> a \<open>BadSignatureError\<close> or a \<open>ValueError\<close>. It returns \<open>True\<close>
  exactly when the key decodes and is accepted, the signature text decodes and the
  signature verifies; a malformed key, malformed signature text and an invalid signature
  all give \<open>False\<close>.
\<close>

theorem verify_never_raises:
  assumes b64: "\<forall>s e. b64decode env s = Inl e \<longrightarrow> e = ValueError"
    and key: "\<forall>k e. VerifyKey env k = Inl e \<longrightarrow> e = ValueError"
    and ver: "\<forall>k d s e. vk_verify env k d s = Inl e \<longrightarrow> e = BadSignatureError \<or> e = ValueError"
  shows "\<exists>b. verify_with_public_b64 env pk data sg = Inr b
           \<and> (b \<longleftrightarrow> (\<exists>kb vk sb. b64decode env pk = Inr kb \<and> VerifyKey env kb = Inr vk
                          \<and> b64decode env sg = Inr sb \<and> vk_verify env vk data sb = Inr ()))"
proof (cases "b64decode env pk")
  case (Inl e)
  then show ?thesis using b64 by (auto simp: verify_with_public_b64_def)
next
  case kb: (Inr kb)
  show ?thesis
  proof (cases "VerifyKey env kb")
    case (Inl e)
    then show ?thesis using kb key by (auto simp: verify_with_public_b64_def)
  next
    case vk: (Inr vk)
    show ?thesis
    proof (cases "b64decode env sg")
      case (Inl e)
      then show ?thesis using kb vk b64 by (auto simp: verify_with_public_b64_def)
    next
      case sb: (Inr sb)
      show ?thesis
      proof (cases "vk_verify env vk data sb")
        case (Inl e)
        then show ?thesis using kb vk sb ver by (auto simp: verify_with_public_b64_def)
      next
        case (Inr u)
        then show ?thesis using kb vk sb by (auto simp: verify_with_public_b64_def)
      qed
    qed
  qed
qed

text \<open>A valid signature, an invalid one, a malformed key and malformed signature text.\<close>

theorem verify_never_raises_witness:
  "verify_with_public_b64 (test_env (\<lambda>n p. []) []) ''srvkey'' ''D1:pi'' ''srvkeyD1=pi'' = Inr True
   \<and> verify_with_public_b64 (test_env (\<lambda>n p. []) []) ''srvkey'' ''D1:pi'' ''srvkeyD1=px'' = Inr False
   \<and> verify_with_public_b64 (test_env (\<lambda>n p. []) []) ''srv!key'' ''D1:pi'' ''srvkeyD1=pi'' = Inr False
   \<and> verify_with_public_b64 (test_env (\<lambda>n p. []) []) ''srvkey'' ''D1:pi'' ''!!'' = Inr False"
proof -
  let ?env = "test_env (\<lambda>n p. []) []"
  have b64: "\<forall>s e. b64decode ?env s = Inl e \<longrightarrow> e = ValueError"
    by (simp add: test_env_def)
  have key: "\<forall>k e. VerifyKey ?env k = Inl e \<longrightarrow> e = ValueError"
    by (simp add: test_env_def)
  have ver: "\<forall>k d s e. vk_verify ?env k d s = Inl e \<longrightarrow> e = BadSignatureError \<or> e = ValueError"
    by (simp add: test_env_def)
  have f: "b64decode ?env ''srvkey'' = Inr ''srvkey''" "VerifyKey ?env ''srvkey'' = Inr ''srvkey''"
    "b64decode ?env ''srvkeyD1=pi'' = Inr ''srvkeyD1=pi''"
    "b64decode ?env ''srvkeyD1=px'' = Inr ''srvkeyD1=px''"
    "b64decode ?env ''srv!key'' = Inl ValueError" "b64decode ?env ''!!'' = Inl ValueError"
    "vk_verify ?env ''srvkey'' ''D1:pi'' ''srvkeyD1=pi'' = Inr ()"
    "vk_verify ?env ''srvkey'' ''D1:pi'' ''srvkeyD1=px'' = Inl BadSignatureError"
    by (simp_all add: test_env_def mask_def)
  show ?thesis
    using verify_never_raises [OF b64 key ver, of "''srvkey''" "''D1:pi''" "''srvkeyD1=pi''"]
      verify_never_raises [OF b64 key ver, of "''srvkey''" "''D1:pi''" "''srvkeyD1=px''"]
      verify_never_raises [OF b64 key ver, of "''srv!key''" "''D1:pi''" "''srvkeyD1=pi''"]
      verify_never_raises [OF b64 key ver, of "''srvkey''" "''D1:pi''" "''!!''"]
    by (auto simp: f)
qed

lemma posts_to_append: "posts_to path (es @ fs) = posts_to path es @ posts_to path fs"
  by (induction path es rule: posts_to.induct) auto

lemma parse_tokens_Inr: "\<exists>d. parse_tokens text = Inr d"
  by (simp add: parse_tokens_fold)

lemma post_result:
  "post env path payload s =
     ((case http_post env (now s) path payload of
         Inl e \<Rightarrow> Inl e
       | Inr (status, text) \<Rightarrow>
           Inr (status, text,
                foldl (\<lambda>d p. dict_set d (fst (entry_of p)) (snd (entry_of p))) []
                  (filter has_colon (split_chr CHR ''|'' (strip text))))),
      s\<lparr>events := events s @ [Post path payload], now := Suc (now s)\<rparr>)"
  by (auto simp: post_def parse_tokens_fold emit_def tick_def Let_def split: sum.splits prod.splits)

lemma command_ack_posts:
  "posts_to ''/api/devices/command-ack'' (events (snd (command_ack env cfg cmd_id ok message dur s)))
     = posts_to ''/api/devices/command-ack'' (events s)
       @ [signed_payload env (command_ack_tokens cfg cmd_id ok message dur
            (ts_at env (now s)) (nonce_at env (Suc (now s))))]"
  by (simp add: command_ack_def client_ts_def client_nonce_def post_result audit_def emit_def
      tick_def signed_payload_def posts_to_append Let_def split: sum.splits prod.splits)


section \<open>client.py: handling a command\<close>



section \<open>client.py: polling for commands\<close>


lemma get_result:
  "get env path query s =
     ((case http_get env (now s) path query of
         Inl e \<Rightarrow> Inl e
       | Inr (status, text) \<Rightarrow>
           (case parse_tokens text of Inl e \<Rightarrow> Inl e | Inr resp \<Rightarrow> Inr (status, text, resp))),
      s\<lparr>events := events s @ [Get path query], now := Suc (now s)\<rparr>)"
  by (auto simp: get_def emit_def tick_def Let_def split: sum.splits prod.splits)



section \<open>client.py: the nonce ledger\<close>

lemma nonces_recorded_append:
  "nonces_recorded (es @ fs) = nonces_recorded es @ nonces_recorded fs"
  by (induction es rule: nonces_recorded.induct) auto

text \<open>\<open>heartbeat_once\<close> records its nonce, and does so before the request is sent.\<close>

lemma heartbeat_records_nonce:
  "\<exists>payload rest.
     events (snd (heartbeat_once env cfg s))
       = events s @ [AddNonce (nonce_at env (now s + 2)), Audit ''heartbeat'' ''out'' payload,
                     Post ''/api/devices/heartbeat'' payload] @ rest
     \<and> nonces_recorded rest = []"
  by (auto simp: heartbeat_once_def client_ts_def client_nonce_def post_result audit_def
      add_nonce_def emit_def tick_def Let_def eval_nat_numeral split: sum.splits prod.splits)

text \<open>The other senders record nothing in the ledger.\<close>

lemma register_records_no_nonce:
  "nonces_recorded (events (snd (register env cfg s))) = nonces_recorded (events s)"
  by (auto simp: register_def client_ts_def client_nonce_def post_result audit_def
      emit_def tick_def Let_def nonces_recorded_append split: sum.splits prod.splits)

lemma commands_poll_records_no_nonce:
  "nonces_recorded (events (snd (commands_poll env cfg s))) = nonces_recorded (events s)"
  by (auto simp: commands_poll_def client_ts_def client_nonce_def get_result audit_def
      emit_def tick_def Let_def nonces_recorded_append split: sum.splits prod.splits)

lemma command_ack_records_no_nonce:
  "nonces_recorded (events (snd (command_ack env cfg cmd_id ok message dur s)))
     = nonces_recorded (events s)"
  by (auto simp: command_ack_def client_ts_def client_nonce_def post_result audit_def
      emit_def tick_def Let_def nonces_recorded_append split: sum.splits prod.splits)

lemma firmware_check_records_no_nonce:
  "nonces_recorded (events (snd (firmware_check env cfg s))) = nonces_recorded (events s)"
  by (auto simp: firmware_check_def client_ts_def client_nonce_def post_result audit_def
      emit_def tick_def Let_def nonces_recorded_append split: sum.splits prod.splits)

text \<open>
  Claim C2 fails on the code. \<open>commands_poll\<close> on a fresh client signs a query holding the
  nonce \<open>nonce1\<close> and hands it to the transport, and the nonce ledger stays empty: only
  \<open>heartbeat_once\<close> calls \<open>add_nonce\<close>.
\<close>

theorem commands_poll_sends_unrecorded_nonce:
  "events (snd (commands_poll (test_env (\<lambda>n p. ''S1:ok'') []) test_cfg (init_client test_cfg)))
     = [Audit ''commands_poll'' ''out''
          ''D1:pi|TS:2025-12-02T10:30:00.000Z|NONCE:nonce1|SIG1:devkeyD1=pi/NONCE=nonce1/TS=2025-12-02T10=30=00.000Z'',
        Get ''/api/devices/commands''
          ''D1:pi|TS:2025-12-02T10:30:00.000Z|NONCE:nonce1|SIG1:devkeyD1=pi/NONCE=nonce1/TS=2025-12-02T10=30=00.000Z'',
        Audit ''commands_poll'' ''in'' ''S1:ok'']
   \<and> nonces_recorded
        (events (snd (commands_poll (test_env (\<lambda>n p. ''S1:ok'') []) test_cfg (init_client test_cfg))))
       = []"
  by code_simp

section \<open>client.py: the firmware update pipeline\<close>

lemma firmware_ack_result:
  "firmware_ack env cfg resp fw_id applied s =
     (let payload = signed_payload env
          [(''D1'', Some (DEVICE_ID cfg)), (''FW1'', fw_id),
           (''FW2'', dict_get_default resp ''FW2'' (Some [])),
           (''ACK1'', Some (if applied then ''OK'' else ''ERROR'')),
           (''ACK2'', Some (if applied then ''Firmware applied successfully''
                           else ''Apply failed, rolled back'')),
           (''TS'', Some (ts_at env (now s))), (''NONCE'', Some (nonce_at env (Suc (now s))))];
          sent = events s @ [Audit ''fw_ack'' ''out'' payload,
                             Post ''/api/devices/firmware/ack'' payload]
      in case http_post env (now s + 2) ''/api/devices/firmware/ack'' payload of
           Inl e \<Rightarrow> (Inl e, s\<lparr>events := sent, now := now s + 3\<rparr>)
         | Inr (status, ack_text) \<Rightarrow>
             if applied
             then (Inr True, s\<lparr>current_fw := dict_get_default resp ''FW2'' (current_fw s),
                              events := sent @ [Audit ''fw_ack'' ''in'' ack_text],
                              now := now s + 3\<rparr>)
             else (Inr False, s\<lparr>events := sent @ [Audit ''fw_ack'' ''in'' ack_text],
                               now := now s + 3\<rparr>))"
  by (simp add: firmware_ack_def signed_payload_def client_ts_def client_nonce_def post_result
      audit_def emit_def tick_def Let_def eval_nat_numeral split: sum.splits prod.splits)











text \<open>With the matching digest the same manifest is applied, acknowledged once, and
  \<open>current_fw\<close> becomes its \<open>FW2\<close>; with \<open>force_fail\<close> it is acknowledged and not applied.\<close>

lemma firmware_applied_example:
  "length (posts_to ''/api/devices/firmware/ack''
     (events (snd (firmware_apply_flow (test_env (\<lambda>n p. ''S1:ok'') ''ab'') test_cfg
          [(''FW1'', Some ''f9''), (''FW2'', Some ''2.0''), (''FW3'', Some ''u''),
           (''FW4'', Some ''ab''), (''FW_SIG'', Some ''srvkeyFW1=f9/FW2=2.0/FW4=ab'')]
          False (init_client test_cfg))))) = 1
   \<and> current_fw (snd (firmware_apply_flow (test_env (\<lambda>n p. ''S1:ok'') ''ab'') test_cfg
          [(''FW1'', Some ''f9''), (''FW2'', Some ''2.0''), (''FW3'', Some ''u''),
           (''FW4'', Some ''ab''), (''FW_SIG'', Some ''srvkeyFW1=f9/FW2=2.0/FW4=ab'')]
          False (init_client test_cfg))) = Some ''2.0''
   \<and> current_fw (snd (firmware_apply_flow (test_env (\<lambda>n p. ''S1:ok'') ''ab'') test_cfg
          [(''FW1'', Some ''f9''), (''FW2'', Some ''2.0''), (''FW3'', Some ''u''),
           (''FW4'', Some ''ab''), (''FW_SIG'', Some ''srvkeyFW1=f9/FW2=2.0/FW4=ab'')]
          True (init_client test_cfg))) = Some ''1.0.0''"
  by code_simp

section \<open>client.py: the retry interval\<close>













text \<open>\<open>register\<close> bounds the directive from below only: 5000 is taken as it is, above
  \<open>MAX_BACKOFF_SECONDS = 600\<close>.\<close>

lemma register_rto_no_ceiling:
  "rto_sec (snd (register (test_env (\<lambda>n p. ''S1:ok|RTO:5000'') []) test_cfg (init_client test_cfg)))
     = 5000"
  by code_simp

section \<open>client.py: which commands are acknowledged\<close>

text \<open>
  The run loop hands the list that \<open>commands_poll\<close> returned to \<open>_handle_command\<close>, one
  command after the other. Every acknowledgment sent in that loop carries the \<open>CMD1\<close> of
  a command of the list, and there are at most as many as the list is long: a command
  that \<open>commands_poll\<close> dropped is not acknowledged.
\<close>

lemma handle_command_posts:
  "\<exists>ok message dur ts nonce.
     posts_to ''/api/devices/command-ack'' (events (snd (handle_command env cfg c s)))
       = posts_to ''/api/devices/command-ack'' (events s)
         @ [signed_payload env
              (command_ack_tokens cfg (dict_get_default c ''CMD1'' (Some [])) ok message dur ts nonce)]"
proof -
  define ctype where "ctype = dict_get_default c ''CMD2'' (Some [])"
  define ok where "ok = (ctype = Some ''RESTART'' \<or> ctype = Some ''FETCH_LOGS'')"
  define message where "message =
     (if ctype = Some ''RESTART'' then ''Restart simulated''
      else if ctype = Some ''FETCH_LOGS''
      then (let m = dict_get_default c ''CMD3'' (Some [])
            in if truthy m then py_str m else ''logs captured'')
      else ''unsupported command '' @ py_str ctype)"
  define dur where "dur = py_trunc ((time_at env (Suc (now s)) - time_at env (now s)) * 1000)"
  define s2 where "s2 = tick (tick s)"
  have hc: "handle_command env cfg c s =
          (case command_ack env cfg (dict_get_default c ''CMD1'' (Some [])) ok message dur s2 of
             (Inl e, s3) \<Rightarrow> (Inl e, s3)
           | (Inr resp, s3) \<Rightarrow> (Inr (), s3))"
    by (simp add: handle_command_def ok_def message_def ctype_def dur_def s2_def tick_def Let_def)
  have "snd (handle_command env cfg c s)
          = snd (command_ack env cfg (dict_get_default c ''CMD1'' (Some [])) ok message dur s2)"
    by (simp add: hc split: prod.splits sum.splits)
  moreover have "events s2 = events s" by (simp add: s2_def tick_def)
  ultimately have "posts_to ''/api/devices/command-ack'' (events (snd (handle_command env cfg c s)))
       = posts_to ''/api/devices/command-ack'' (events s)
         @ [signed_payload env
              (command_ack_tokens cfg (dict_get_default c ''CMD1'' (Some [])) ok message dur
                 (ts_at env (now s2)) (nonce_at env (Suc (now s2))))]"
    using command_ack_posts [of env cfg "dict_get_default c ''CMD1'' (Some [])" ok message dur s2]
    by simp
  then show ?thesis by blast
qed

lemma handle_all_posts:
  "\<exists>acks.
     posts_to ''/api/devices/command-ack'' (events (snd (handle_all env cfg cmds s)))
       = posts_to ''/api/devices/command-ack'' (events s) @ acks
     \<and> length acks \<le> length cmds
     \<and> (\<forall>p \<in> set acks. \<exists>c \<in> set cmds. \<exists>ok message dur ts nonce.
            p = signed_payload env
                  (command_ack_tokens cfg (dict_get_default c ''CMD1'' (Some [])) ok message dur ts nonce))"
proof -
  define acked where "acked c p \<longleftrightarrow> (\<exists>ok message dur ts nonce.
            p = signed_payload env
                  (command_ack_tokens cfg (dict_get_default c ''CMD1'' (Some [])) ok message dur ts nonce))"
    for c p
  have "\<exists>acks.
     posts_to ''/api/devices/command-ack'' (events (snd (handle_all env cfg cmds s)))
       = posts_to ''/api/devices/command-ack'' (events s) @ acks
     \<and> length acks \<le> length cmds
     \<and> (\<forall>p \<in> set acks. \<exists>c \<in> set cmds. acked c p)"
  proof (induction cmds arbitrary: s)
    case Nil
    then show ?case by simp
  next
    case (Cons c cmds)
    obtain r1 s1 where h: "handle_command env cfg c s = (r1, s1)"
      by (cases "handle_command env cfg c s")
    from handle_command_posts [of env cfg c s]
    obtain ok message dur ts nonce where
      hp: "posts_to ''/api/devices/command-ack'' (events (snd (handle_command env cfg c s)))
         = posts_to ''/api/devices/command-ack'' (events s)
           @ [signed_payload env
                (command_ack_tokens cfg (dict_get_default c ''CMD1'' (Some [])) ok message dur ts nonce)]"
      by blast
    define p where "p = signed_payload env
                (command_ack_tokens cfg (dict_get_default c ''CMD1'' (Some [])) ok message dur ts nonce)"
    have p: "acked c p" unfolding acked_def p_def by blast
    have one: "posts_to ''/api/devices/command-ack'' (events s1)
         = posts_to ''/api/devices/command-ack'' (events s) @ [p]"
      using hp h by (simp add: p_def)
    show ?case
    proof (cases r1)
      case (Inl e)
      then have "snd (handle_all env cfg (c # cmds) s) = s1" using h by simp
      then have "posts_to ''/api/devices/command-ack'' (events (snd (handle_all env cfg (c # cmds) s)))
         = posts_to ''/api/devices/command-ack'' (events s) @ [p]
         \<and> length [p] \<le> length (c # cmds)
         \<and> (\<forall>q \<in> set [p]. \<exists>c' \<in> set (c # cmds). acked c' q)"
        using one p by simp
      then show ?thesis by (rule exI)
    next
      case (Inr u)
      then have eq: "handle_all env cfg (c # cmds) s = handle_all env cfg cmds s1" using h by simp
      from Cons.IH [of s1] obtain acks where
        a: "posts_to ''/api/devices/command-ack'' (events (snd (handle_all env cfg cmds s1)))
              = posts_to ''/api/devices/command-ack'' (events s1) @ acks"
        and l: "length acks \<le> length cmds"
        and m: "\<forall>q \<in> set acks. \<exists>c' \<in> set cmds. acked c' q"
        by blast
      have "posts_to ''/api/devices/command-ack'' (events (snd (handle_all env cfg (c # cmds) s)))
         = posts_to ''/api/devices/command-ack'' (events s) @ (p # acks)
         \<and> length (p # acks) \<le> length (c # cmds)
         \<and> (\<forall>q \<in> set (p # acks). \<exists>c' \<in> set (c # cmds). acked c' q)"
        unfolding eq using a l m one p by simp
      then show ?thesis by (rule exI)
    qed
  qed
  then show ?thesis unfolding acked_def .
qed

text \<open>The acknowledgment sent by \<open>firmware_apply_flow\<close> records no nonce either.\<close>

lemma firmware_ack_records_no_nonce:
  "nonces_recorded (events (snd (firmware_ack env cfg resp fw_id applied s)))
     = nonces_recorded (events s)"
  by (simp add: firmware_ack_result nonces_recorded_append Let_def split: sum.splits prod.splits)

end
